theory Spec2Isabelle
  imports Complex_Main
begin

section \<open>Hybrid retrieval, ranking and access control of the RAG backend (server.js)\<close>

text \<open>
  The development follows \<^verbatim>\<open>server.js\<close> of the backend: the permission filter
  \<^verbatim>\<open>filterChunksByPermissions\<close>, the hybrid search \<^verbatim>\<open>performHybridSearch\<close>,
  and the handlers of \<^verbatim>\<open>/api/retrieve\<close>, \<^verbatim>\<open>/api/clear-session\<close> and
  \<^verbatim>\<open>/api/conversation/:sessionId\<close> over the in-memory map
  \<^verbatim>\<open>conversationSessions\<close>.

  JavaScript strings are modelled as \<^typ>\<open>string\<close> (lists of ASCII characters), numbers
  that carry scores as \<^typ>\<open>real\<close>, the user's access level as \<^typ>\<open>int\<close>. A value that
  may be \<^verbatim>\<open>null\<close> or \<^verbatim>\<open>undefined\<close> is an \<^typ>\<open>'a option\<close>, and the truthiness
  tests of the source are written out.
\<close>

subsection \<open>Strings\<close>

text \<open>\<^verbatim>\<open>String.prototype.toLowerCase\<close> on ASCII text.\<close>

definition lower_char :: "char \<Rightarrow> char" where
  "lower_char c =
     (if (65::nat) \<le> of_char c \<and> of_char c \<le> (90::nat)
      then char_of (of_char c + (32::nat)) else c)"

definition toLowerCase :: "string \<Rightarrow> string" where
  "toLowerCase s = map lower_char s"

text \<open>\<^verbatim>\<open>s.startsWith(p)\<close> and \<^verbatim>\<open>s.includes(p)\<close>.\<close>

fun startsWith :: "string \<Rightarrow> string \<Rightarrow> bool" where
  "startsWith s [] = True"
| "startsWith [] (p # ps) = False"
| "startsWith (c # cs) (p # ps) = (c = p \<and> startsWith cs ps)"

fun str_includes :: "string \<Rightarrow> string \<Rightarrow> bool" where
  "str_includes [] p = (p = [])"
| "str_includes (c # cs) p = (startsWith (c # cs) p \<or> str_includes cs p)"

subsection \<open>Users and passages\<close>

text \<open>
  \<^verbatim>\<open>req.user\<close> as the authentication middleware builds it. The field \<^verbatim>\<open>id\<close> is
  named \<open>uid\<close> here; it is the UUID primary key of the users table. The department
  column may be NULL.
\<close>

record user =
  uid :: string
  username :: string
  role :: string
  accessLevel :: int
  department :: "string option"

text \<open>
  A passage as the handlers carry it: the row of the store (\<^verbatim>\<open>text\<close> and \<^verbatim>\<open>id\<close>,
  named \<open>chunk_text\<close> and \<open>chunk_id\<close> here, \<^verbatim>\<open>access_level\<close>, \<^verbatim>\<open>departments\<close>,
  \<^verbatim>\<open>score\<close>), the provenance tag \<^verbatim>\<open>searchType\<close> and, once ranked,
  \<^verbatim>\<open>finalScore\<close> (absent on the fallback path).
\<close>

record chunk =
  chunk_text :: string
  chunk_id :: string
  access_level :: string
  departments :: "string list"
  score :: real
  searchType :: string
  finalScore :: "real option"

subsection \<open>The permission filter\<close>

text \<open>
  The callback of the second \<^verbatim>\<open>chunks.filter\<close> of \<^verbatim>\<open>filterChunksByPermissions\<close>, for
  an authenticated user: the admin test first, then the \<^verbatim>\<open>switch\<close> on the access
  level, whose default case denies.
\<close>

definition chunk_allowed :: "user \<Rightarrow> chunk \<Rightarrow> bool" where
  "chunk_allowed u c =
     (let accessLvl = access_level c;
          depts = departments c;
          userDept = (case department u of
                        None \<Rightarrow> []
                      | Some d \<Rightarrow> if d = [] then [] else toLowerCase d)
      in if role u = ''admin'' then True
         else if accessLvl = ''public'' then True
         else if accessLvl = ''departmental'' then
           list_ex (\<lambda>dept. toLowerCase dept = userDept) depts
         else if accessLvl = ''internal'' then
           (let isManager = (role u = ''manager'' \<or> accessLevel u \<ge> 2);
                isFinance = (userDept = ''finance'');
                hasManagementAccess = (List.member depts ''management'' \<and> isManager);
                hasFinanceAccess = (List.member depts ''finance'' \<and> isFinance)
            in hasManagementAccess \<or> hasFinanceAccess)
         else if accessLvl = ''confidential'' then
           (role u = ''admin'' \<or> accessLevel u \<ge> 3)
         else False)"

definition filterChunksByPermissions :: "chunk list \<Rightarrow> user option \<Rightarrow> chunk list" where
  "filterChunksByPermissions chunks usr =
     (case usr of
        None \<Rightarrow> filter (\<lambda>c. access_level c = ''public'') chunks
      | Some u \<Rightarrow> filter (chunk_allowed u) chunks)"

subsection \<open>Regular expressions of the ranking\<close>

text \<open>Line terminators, which \<^verbatim>\<open>.\<close> does not match, and the classes \<^verbatim>\<open>\s\<close>, \<^verbatim>\<open>\w\<close>.\<close>

definition is_line_terminator :: "char \<Rightarrow> bool" where
  "is_line_terminator c = (of_char c = (10::nat) \<or> of_char c = (13::nat))"

definition is_space :: "char \<Rightarrow> bool" where
  "is_space c = (((9::nat) \<le> of_char c \<and> of_char c \<le> (13::nat)) \<or> of_char c = (32::nat))"

definition is_word_char :: "char \<Rightarrow> bool" where
  "is_word_char c =
     (let n = (of_char c :: nat)
      in (48 \<le> n \<and> n \<le> 57) \<or> (65 \<le> n \<and> n \<le> 90) \<or> n = 95 \<or> (97 \<le> n \<and> n \<le> 122))"

text \<open>
  \<open>gap_then s b\<close>: the pattern \<^verbatim>\<open>.*b\<close> matches at the start of \<open>s\<close>;
  \<open>matches_gap s a b\<close>: the pattern \<^verbatim>\<open>a.*b\<close> matches somewhere in \<open>s\<close>.
\<close>

fun gap_then :: "string \<Rightarrow> string \<Rightarrow> bool" where
  "gap_then [] b = (b = [])"
| "gap_then (c # cs) b = (startsWith (c # cs) b \<or> (\<not> is_line_terminator c \<and> gap_then cs b))"

fun matches_gap :: "string \<Rightarrow> string \<Rightarrow> string \<Rightarrow> bool" where
  "matches_gap [] a b = (a = [] \<and> b = [])"
| "matches_gap (c # cs) a b =
     ((startsWith (c # cs) a \<and> gap_then (drop (length a) (c # cs)) b) \<or> matches_gap cs a b)"

text \<open>
  The test of \<^verbatim>\<open>isMonetaryQuestion\<close> on the lower-cased question:
  \<^verbatim>\<open>/how much|how many|what.*amount|total|cost|price|money|dollars|million|billion|\$|donate|donated|donation|charitable|charity/\<close>.
\<close>

definition isMonetaryQuestion :: "string \<Rightarrow> bool" where
  "isMonetaryQuestion questionLower =
     (list_ex (str_includes questionLower)
        [''how much'', ''how many'', ''total'', ''cost'', ''price'', ''money'', ''dollars'',
         ''million'', ''billion'', ''$'', ''donate'', ''donated'', ''donation'',
         ''charitable'', ''charity'']
      \<or> matches_gap questionLower ''what'' ''amount'')"

text \<open>
  \<^verbatim>\<open>/charitable support|charitable donation|foundation provided|donated.*million/gi\<close> and
  \<^verbatim>\<open>/decade|past.*year|over.*year/gi\<close>, tested on the lower-cased passage text.
\<close>

definition charity_test :: "string \<Rightarrow> bool" where
  "charity_test resultText =
     (str_includes resultText ''charitable support''
      \<or> str_includes resultText ''charitable donation''
      \<or> str_includes resultText ''foundation provided''
      \<or> matches_gap resultText ''donated'' ''million'')"

definition decade_test :: "string \<Rightarrow> bool" where
  "decade_test resultText =
     (str_includes resultText ''decade''
      \<or> matches_gap resultText ''past'' ''year''
      \<or> matches_gap resultText ''over'' ''year'')"

text \<open>
  The remaining matches are results of the regular-expression engine and are taken as
  parameters: \<open>monetaryMatches\<close> is the number of matches of the six
  \<^verbatim>\<open>monetaryPatterns\<close> in a passage text, \<open>dates_of\<close> and \<open>people_of\<close> are
  \<^verbatim>\<open>entities.dates\<close> and \<^verbatim>\<open>entities.people\<close> of \<^verbatim>\<open>preprocessQuery\<close> for a
  lower-cased question.
\<close>

record regex_rt =
  monetaryMatches :: "string \<Rightarrow> nat"
  dates_of :: "string \<Rightarrow> string list"
  people_of :: "string \<Rightarrow> string list"

subsection \<open>Hybrid search\<close>

text \<open>A record of the store, and the passage object the search builds from it.\<close>

record row =
  r_text :: string
  r_id :: string
  r_access_level :: string
  r_departments :: "string list option"
  r_score :: real

definition as_chunk :: "string \<Rightarrow> row \<Rightarrow> chunk" where
  "as_chunk tag r =
     \<lparr>chunk_text = r_text r, chunk_id = r_id r, access_level = r_access_level r,
      departments = (case r_departments r of None \<Rightarrow> [] | Some ds \<Rightarrow> ds),
      score = r_score r, searchType = tag, finalScore = None\<rparr>"

text \<open>
  Step 3, one iteration of \<^verbatim>\<open>allResults.forEach\<close> on the map \<^verbatim>\<open>uniqueResults\<close>, kept
  as the list of its values in insertion order (the key of a value is its id).
\<close>

fun merge_into :: "chunk list \<Rightarrow> chunk \<Rightarrow> chunk list" where
  "merge_into [] r = [r]"
| "merge_into (e # es) r =
     (if chunk_id e = chunk_id r
      then e\<lparr>score := max (score e) (score r),
             searchType := searchType e @ ''+'' @ searchType r\<rparr> # es
      else e # merge_into es r)"

definition uniqueResults :: "chunk list \<Rightarrow> chunk list" where
  "uniqueResults candidates = foldl merge_into [] candidates"

text \<open>Step 4, the boosted score of one merged result.\<close>

definition boostedScore :: "regex_rt \<Rightarrow> string \<Rightarrow> chunk \<Rightarrow> real" where
  "boostedScore rt question result =
     (let questionLower = toLowerCase question;
          resultText = toLowerCase (chunk_text result);
          s0 = score result;
          s1 = (if isMonetaryQuestion questionLower then
                  (let m = monetaryMatches rt resultText;
                       a = (if m > 0 then s0 * (2.0 + real m) else s0);
                       b = (if charity_test resultText then a * 1.5 else a)
                   in if str_includes questionLower ''total'' \<and> decade_test resultText
                      then b * 1.3 else b)
                else s0);
          queryPhrase = filter (\<lambda>ch. is_word_char ch \<or> is_space ch) (toLowerCase question);
          s2 = (if str_includes resultText queryPhrase then s1 * 1.2 else s1);
          s3 = foldl (\<lambda>acc date. if str_includes resultText (toLowerCase date)
                                  then acc * 1.3 else acc) s2 (dates_of rt questionLower);
          s4 = foldl (\<lambda>acc person. if str_includes resultText (toLowerCase person)
                                    then acc * 1.2 else acc) s3 (people_of rt questionLower)
      in if str_includes (searchType result) ''+'' then s4 * 1.4 else s4)"

definition rankedResults :: "regex_rt \<Rightarrow> string \<Rightarrow> chunk list \<Rightarrow> chunk list" where
  "rankedResults rt question candidates =
     map (\<lambda>result. result\<lparr>finalScore := Some (boostedScore rt question result)\<rparr>)
       (uniqueResults candidates)"

text \<open>The comparator \<^verbatim>\<open>(a, b) => b.finalScore - a.finalScore\<close> as a sort key.\<close>

definition final_key :: "chunk \<Rightarrow> real" where
  "final_key c = (case finalScore c of Some f \<Rightarrow> - f | None \<Rightarrow> 0)"

datatype db_error = DbError string

text \<open>
  \<^verbatim>\<open>performHybridSearch\<close>. The three queries of the store are given by their outcomes:
  \<open>vectorRun\<close>, \<open>keywordRun\<close> and, for the \<^verbatim>\<open>catch\<close> block, \<open>fallbackRun\<close>, each the
  rows returned or the error thrown.
\<close>

definition allResults :: "row list \<Rightarrow> db_error + row list \<Rightarrow> chunk list" where
  "allResults vrows keywordRun =
     (let vectorResults = map (as_chunk ''vector'') vrows;
          keywordResults = (case keywordRun of
                              Inr krows \<Rightarrow> map (as_chunk ''keyword'') krows
                            | Inl keywordError \<Rightarrow> [])
      in vectorResults @ keywordResults)"

definition performHybridSearch ::
  "regex_rt \<Rightarrow> string \<Rightarrow> db_error + row list \<Rightarrow> db_error + row list \<Rightarrow> db_error + row list
     \<Rightarrow> user option \<Rightarrow> db_error + chunk list" where
  "performHybridSearch rt question vectorRun keywordRun fallbackRun usr =
     (case vectorRun of
        Inr vrows \<Rightarrow>
          (let permissionFilteredResults =
                 filterChunksByPermissions
                   (rankedResults rt question (allResults vrows keywordRun)) usr;
               topResults = take 5 (sort_key final_key permissionFilteredResults)
           in Inr topResults)
      | Inl err \<Rightarrow>
          (case fallbackRun of
             Inr frows \<Rightarrow>
               Inr (filterChunksByPermissions (map (as_chunk ''vector_fallback'') frows) usr)
           | Inl err2 \<Rightarrow> Inl err2))"

subsection \<open>Conversation sessions\<close>

text \<open>
  An entry of \<^verbatim>\<open>sessionData.history\<close> and the session object. The map
  \<^verbatim>\<open>previousChunks\<close> and the set \<^verbatim>\<open>topicKeywords\<close> are kept as lists in insertion
  order, which \<^verbatim>\<open>Array.from\<close> and \<^verbatim>\<open>slice\<close> observe. \<^verbatim>\<open>userId\<close> is the owner,
  \<^verbatim>\<open>null\<close> when there is none.
\<close>

record message =
  sender :: string
  msg_text :: string
  timestamp :: string

record sessionData =
  history :: "message list"
  previousChunks :: "(string \<times> chunk) list"
  topicKeywords :: "string list"
  userId :: "string option"

type_synonym sessions = "string \<Rightarrow> sessionData option"

text \<open>\<^verbatim>\<open>Map.prototype.set\<close>, \<^verbatim>\<open>Set.prototype.add\<close>, \<^verbatim>\<open>xs.slice(-n)\<close>, \<^verbatim>\<open>xs.join(sep)\<close>.\<close>

fun map_set :: "(string \<times> 'v) list \<Rightarrow> string \<Rightarrow> 'v \<Rightarrow> (string \<times> 'v) list" where
  "map_set [] k v = [(k, v)]"
| "map_set ((k', v') # m) k v = (if k' = k then (k', v) # m else (k', v') # map_set m k v)"

definition set_add :: "string list \<Rightarrow> string \<Rightarrow> string list" where
  "set_add ks k = (if List.member ks k then ks else ks @ [k])"

definition slice_last :: "nat \<Rightarrow> 'a list \<Rightarrow> 'a list" where
  "slice_last n xs = drop (length xs - n) xs"

fun js_join :: "string \<Rightarrow> string list \<Rightarrow> string" where
  "js_join sep [] = []"
| "js_join sep [x] = x"
| "js_join sep (x # y # ys) = x @ sep @ js_join sep (y # ys)"

text \<open>\<^verbatim>\<open>s.trim()\<close> and \<^verbatim>\<open>s.split(/\s+/)\<close>.\<close>

definition trim :: "string \<Rightarrow> string" where
  "trim s = rev (dropWhile is_space (rev (dropWhile is_space s)))"

function split_ws_from :: "string \<Rightarrow> string \<Rightarrow> string list" where
  "split_ws_from cur [] = [cur]"
| "split_ws_from cur (c # cs) =
     (if is_space c then cur # split_ws_from [] (dropWhile is_space cs)
      else split_ws_from (cur @ [c]) cs)"
  by pat_completeness auto
termination
  by (relation "measure (\<lambda>(cur, s). length s)")
     (auto simp add: length_dropWhile_le less_Suc_eq_le)

definition split_ws :: "string \<Rightarrow> string list" where
  "split_ws s = split_ws_from [] s"

text \<open>
  The ownership test shared by the three session handlers:
  \<^verbatim>\<open>req.user && sessionData.userId && sessionData.userId !== req.user.id\<close>.
\<close>

definition ownership_conflict :: "user option \<Rightarrow> sessionData \<Rightarrow> bool" where
  "ownership_conflict usr sd =
     (case usr of
        None \<Rightarrow> False
      | Some u \<Rightarrow>
          (case userId sd of
             None \<Rightarrow> False
           | Some owner \<Rightarrow> owner \<noteq> [] \<and> owner \<noteq> uid u))"

text \<open>The follow-up test and the query expansion of \<^verbatim>\<open>/api/retrieve\<close>.\<close>

definition isFollowUp :: "string \<Rightarrow> sessionData \<Rightarrow> bool" where
  "isFollowUp question sd =
     (length (trim (toLowerCase question)) < 20 \<and> length (history sd) > 0)"

definition searchQuery :: "string \<Rightarrow> sessionData \<Rightarrow> string" where
  "searchQuery question sd =
     (let questionLower = trim (toLowerCase question) in
      if isFollowUp question sd then
        (let recentTopics = slice_last 10 (topicKeywords sd) in
         if str_includes questionLower ''total'' \<or> str_includes questionLower ''overall''
            \<or> questionLower = ''and in total?'' then
           (if list_ex (\<lambda>topic. str_includes topic ''charity'' \<or> str_includes topic ''donation'')
                 recentTopics then
              ''charitable donations total decade years combined philanthropic giving community support overall''
            else if list_ex (\<lambda>topic. str_includes topic ''insurance'') recentTopics then
              ''insurance total coverage policies '' @
                js_join '' '' (filter (\<lambda>t. str_includes t ''insurance'') recentTopics)
            else ''total overall '' @ js_join '' '' (take 3 recentTopics) @ '' combined'')
         else question @ '' '' @ js_join '' '' (take 3 recentTopics))
      else question)"

text \<open>\<^verbatim>\<open>chunk.finalScore || chunk.score || 0\<close>.\<close>

definition effective_score :: "chunk \<Rightarrow> real" where
  "effective_score c =
     (case finalScore c of
        Some f \<Rightarrow> if f \<noteq> 0 then f else score c
      | None \<Rightarrow> score c)"

text \<open>
  The passages of the session cache added on a follow-up: the first two whose text
  holds a word of the question longer than 3 characters, filtered by permission,
  retagged and discounted.
\<close>

definition relevantPrevious :: "string \<Rightarrow> sessionData \<Rightarrow> chunk list" where
  "relevantPrevious question sd =
     (let questionLower = trim (toLowerCase question);
          questionWords = filter (\<lambda>w. length w > 3) (split_ws questionLower)
      in take 2 (filter (\<lambda>chunk. list_ex (str_includes (toLowerCase (chunk_text chunk)))
                                   questionWords)
                   (map snd (previousChunks sd))))"

definition previous_context :: "chunk \<Rightarrow> chunk" where
  "previous_context chunk =
     chunk\<lparr>searchType := ''previous_context'',
           finalScore := Some (effective_score chunk * 0.8)\<rparr>"

definition combinedChunks :: "chunk list \<Rightarrow> string \<Rightarrow> sessionData \<Rightarrow> user option \<Rightarrow> chunk list" where
  "combinedChunks retrievedChunks question sd usr =
     (if isFollowUp question sd \<and> length (previousChunks sd) > 0
      then retrievedChunks @
             map previous_context (filterChunksByPermissions (relevantPrevious question sd) usr)
      else retrievedChunks)"

definition topChunks :: "chunk list \<Rightarrow> string \<Rightarrow> sessionData \<Rightarrow> user option \<Rightarrow> chunk list" where
  "topChunks retrievedChunks question sd usr =
     take 5 (sort_key (\<lambda>c. - effective_score c) (combinedChunks retrievedChunks question sd usr))"

text \<open>The keywords of the question that enter \<^verbatim>\<open>topicKeywords\<close>.\<close>

definition questionKeywords :: "string \<Rightarrow> string list" where
  "questionKeywords question =
     filter (\<lambda>word. length word > 3 \<and>
                    \<not> List.member [''what'', ''when'', ''where'', ''why'', ''how'', ''does'',
                                    ''did'', ''the''] word)
       (split_ws (map (\<lambda>ch. if is_word_char ch \<or> is_space ch then ch else CHR '' '')
                     (toLowerCase question)))"

text \<open>
  The update of the session at the end of a served request: the two history entries,
  the cache, the owner, and the three caps. \<open>t1\<close> and \<open>t2\<close> are the two timestamps.
\<close>

definition turn_entries :: "string \<Rightarrow> string \<Rightarrow> string \<Rightarrow> string \<Rightarrow> message list" where
  "turn_entries question answer t1 t2 =
     [\<lparr>sender = ''user'', msg_text = question, timestamp = t1\<rparr>,
      \<lparr>sender = ''bot'', msg_text = answer, timestamp = t2\<rparr>]"

definition updateSession ::
  "sessionData \<Rightarrow> string \<Rightarrow> string \<Rightarrow> string \<Rightarrow> string \<Rightarrow> chunk list \<Rightarrow> user option
     \<Rightarrow> sessionData" where
  "updateSession sd question answer t1 t2 tops usr =
     (let keywords1 = foldl set_add (topicKeywords sd) (questionKeywords question);
          history1 = history sd @ turn_entries question answer t1 t2;
          chunks1 = foldl (\<lambda>m chunk. map_set m (chunk_id chunk) chunk) (previousChunks sd) tops;
          owner1 = (case usr of Some u \<Rightarrow> Some (uid u) | None \<Rightarrow> userId sd)
      in \<lparr>history = slice_last 20 history1,
          previousChunks = (if length chunks1 > 50 then slice_last 50 chunks1 else chunks1),
          topicKeywords = (if length keywords1 > 20 then slice_last 20 keywords1 else keywords1),
          userId = owner1\<rparr>)"

text \<open>
  A recorded turn is what one served request hands to the update: question, answer,
  the two timestamps, the passages used and the user. \<open>record_turns\<close> records a
  sequence of turns on one session, oldest first.
\<close>

record turn =
  turn_question :: string
  turn_answer :: string
  turn_time1 :: string
  turn_time2 :: string
  turn_chunks :: "chunk list"
  turn_user :: "user option"

definition record_turn :: "sessionData \<Rightarrow> turn \<Rightarrow> sessionData" where
  "record_turn sd t =
     updateSession sd (turn_question t) (turn_answer t) (turn_time1 t) (turn_time2 t)
       (turn_chunks t) (turn_user t)"

definition record_turns :: "sessionData \<Rightarrow> turn list \<Rightarrow> sessionData" where
  "record_turns sd ts = foldl record_turn sd ts"

definition entries_of :: "turn list \<Rightarrow> message list" where
  "entries_of ts =
     concat (map (\<lambda>t. turn_entries (turn_question t) (turn_answer t) (turn_time1 t)
                          (turn_time2 t)) ts)"

subsection \<open>The handlers\<close>

text \<open>
  The body of a request to \<^verbatim>\<open>/api/retrieve\<close> with the user set by
  \<^verbatim>\<open>optionalAuth\<close>, and what the handler obtains from outside while serving it: a
  fresh session identifier, the outcomes of the three queries, the answer of
  \<^verbatim>\<open>generateResponse\<close> (which never throws) and two timestamps.
\<close>

record request =
  question :: string
  sessionId :: "string option"
  req_user :: "user option"

record env =
  freshSessionId :: string
  vectorRun :: "db_error + row list"
  keywordRun :: "db_error + row list"
  fallbackRun :: "db_error + row list"
  answer :: string
  time1 :: string
  time2 :: string

datatype http_error = QuestionRequired | SessionOwnershipError | RetrievalFailed

text \<open>
  The fields of the response the properties below speak about;
  \<open>retrievedChunks\<close> is \<^verbatim>\<open>topChunks.map(...)\<close> with the text cut to 200 characters.
\<close>

record response =
  resp_answer :: string
  retrievedChunks :: "chunk list"
  conversationLength :: nat
  expandedQuery :: "string option"
  contextChunksUsed :: nat
  previousChunksInSession :: nat
  permissionsApplied :: bool

definition response_chunk :: "chunk \<Rightarrow> chunk" where
  "response_chunk c =
     \<lparr>chunk_text = take 200 (chunk_text c) @ (if length (chunk_text c) > 200 then ''...'' else []),
      chunk_id = chunk_id c,
      access_level = access_level c,
      departments = departments c,
      score = effective_score c,
      searchType = searchType c,
      finalScore = None\<rparr>"

definition currentSessionId :: "request \<Rightarrow> env \<Rightarrow> string" where
  "currentSessionId req ev =
     (case sessionId req of
        None \<Rightarrow> freshSessionId ev
      | Some sid \<Rightarrow> if sid = [] then freshSessionId ev else sid)"

definition sessionData_of :: "sessions \<Rightarrow> string \<Rightarrow> user option \<Rightarrow> sessionData" where
  "sessionData_of ss sid usr =
     (case ss sid of
        Some sd \<Rightarrow> sd
      | None \<Rightarrow> \<lparr>history = [], previousChunks = [], topicKeywords = [],
                  userId = map_option uid usr\<rparr>)"

definition retrieve ::
  "regex_rt \<Rightarrow> sessions \<Rightarrow> request \<Rightarrow> env \<Rightarrow> http_error + (response \<times> sessions)" where
  "retrieve rt ss req ev =
     (if question req = [] then Inl QuestionRequired
      else
        (let sid = currentSessionId req ev;
             sd = sessionData_of ss sid (req_user req)
         in if ownership_conflict (req_user req) sd then Inl SessionOwnershipError
            else
              (case performHybridSearch rt (searchQuery (question req) sd)
                      (vectorRun ev) (keywordRun ev) (fallbackRun ev) (req_user req) of
                 Inl err \<Rightarrow> Inl RetrievalFailed
               | Inr retrieved \<Rightarrow>
                   (let tops = topChunks retrieved (question req) sd (req_user req);
                        sd' = updateSession sd (question req) (answer ev) (time1 ev) (time2 ev)
                                tops (req_user req)
                    in Inr (\<lparr>resp_answer = answer ev,
                             retrievedChunks = map response_chunk tops,
                             conversationLength = length (history sd'),
                             expandedQuery =
                               (if searchQuery (question req) sd \<noteq> question req
                                then Some (searchQuery (question req) sd) else None),
                             contextChunksUsed = length tops,
                             previousChunksInSession = length (previousChunks sd'),
                             permissionsApplied = (req_user req \<noteq> None)\<rparr>,
                            ss(sid \<mapsto> sd'))))))"

text \<open>\<^verbatim>\<open>GET /api/conversation/:sessionId\<close>.\<close>

record conversation_view =
  cv_history :: "message list"
  messageCount :: nat
  cachedChunks :: nat
  cv_topicKeywords :: "string list"
  owner :: "string option"



text \<open>
  The server handling a sequence of retrieval requests, each with what it obtains from
  outside; a request answered with an error leaves the sessions as they were.
\<close>

fun serve :: "regex_rt \<Rightarrow> sessions \<Rightarrow> (request \<times> env) list \<Rightarrow> sessions" where
  "serve rt ss [] = ss"
| "serve rt ss ((req, ev) # rest) =
     (case retrieve rt ss req ev of
        Inl err \<Rightarrow> serve rt ss rest
      | Inr (resp, ss') \<Rightarrow> serve rt ss' rest)"

subsection \<open>Sample data\<close>

text \<open>For questions and texts in which the parameterised patterns find nothing.\<close>

definition no_matches :: regex_rt where
  "no_matches = \<lparr>monetaryMatches = (\<lambda>t. 0), dates_of = (\<lambda>q. []), people_of = (\<lambda>q. [])\<rparr>"

definition golf_row :: row where
  "golf_row =
     \<lparr>r_text = ''Golf news'', r_id = ''c1'', r_access_level = ''public'',
      r_departments = Some [''all''], r_score = 0.9\<rparr>"

definition golf_env :: env where
  "golf_env =
     \<lparr>freshSessionId = ''s9'', vectorRun = Inr [golf_row], keywordRun = Inr [],
      fallbackRun = Inr [], answer = ''Golf news'', time1 = ''t1'', time2 = ''t2''\<rparr>"

definition first_request :: request where
  "first_request = \<lparr>question = ''golf'', sessionId = Some ''s1'', req_user = None\<rparr>"

definition followup_request :: request where
  "followup_request = \<lparr>question = ''more golf'', sessionId = Some ''s1'', req_user = None\<rparr>"

definition topics_session :: sessionData where
  "topics_session =
     \<lparr>history = turn_entries ''golf'' ''Golf news'' ''t1'' ''t2'', previousChunks = [],
      topicKeywords = [''umbrella'', ''logo'', ''golf'', ''tournament''], userId = None\<rparr>"



definition sample_executive :: user where
  "sample_executive =
     \<lparr>uid = ''u-2'', username = ''vp'', role = ''manager'', accessLevel = 3,
      department = Some ''Finance''\<rparr>"

definition public_chunk :: chunk where
  "public_chunk =
     \<lparr>chunk_text = ''Travelers is an insurance company'', chunk_id = ''c1'',
      access_level = ''public'', departments = [''all''], score = 0.9,
      searchType = ''vector'', finalScore = Some 0.9\<rparr>"

definition confidential_chunk :: chunk where
  "confidential_chunk =
     \<lparr>chunk_text = ''Executive plan'', chunk_id = ''c2'',
      access_level = ''confidential'', departments = [''executive''], score = 0.8,
      searchType = ''vector'', finalScore = Some 0.8\<rparr>"








definition golf_turn :: turn where
  "golf_turn =
     \<lparr>turn_question = ''golf'', turn_answer = ''Golf news'', turn_time1 = ''t1'',
      turn_time2 = ''t2'', turn_chunks = [], turn_user = None\<rparr>"

section \<open>Properties of the permission filter\<close>

lemma chunk_allowed_confidential:
  assumes "chunk_allowed u c" and "access_level c = ''confidential''"
  shows "role u = ''admin'' \<or> accessLevel u \<ge> 3"
  using assms by (simp add: chunk_allowed_def Let_def split: if_splits)

text \<open>
  C1. Whatever the candidate list and the user context, a passage of access level
  \<open>confidential\<close> that the permission filter lets through was requested by a user
  whose role is admin or whose access level is at least 3; for an anonymous caller the
  output holds no confidential passage at all.
\<close>

theorem filter_confidential_needs_clearance:
  "(c \<in> set (filterChunksByPermissions chunks usr) \<and> access_level c = ''confidential''
      \<longrightarrow> (\<exists>u. usr = Some u \<and> (role u = ''admin'' \<or> accessLevel u \<ge> 3)))
   \<and> (c \<in> set (filterChunksByPermissions chunks None)
      \<longrightarrow> access_level c \<noteq> ''confidential'')"
proof (intro conjI impI)
  assume h: "c \<in> set (filterChunksByPermissions chunks usr) \<and> access_level c = ''confidential''"
  show "\<exists>u. usr = Some u \<and> (role u = ''admin'' \<or> accessLevel u \<ge> 3)"
  proof (cases usr)
    case None
    with h show ?thesis by (auto simp add: filterChunksByPermissions_def)
  next
    case (Some u)
    with h have "chunk_allowed u c" by (simp add: filterChunksByPermissions_def)
    with h Some show ?thesis by (simp add: chunk_allowed_confidential)
  qed
next
  assume "c \<in> set (filterChunksByPermissions chunks None)"
  then show "access_level c \<noteq> ''confidential''"
    by (auto simp add: filterChunksByPermissions_def)
qed

theorem filter_confidential_needs_clearance_witness:
  "confidential_chunk \<in> set (filterChunksByPermissions [public_chunk, confidential_chunk]
       (Some sample_executive))
   \<and> access_level confidential_chunk = ''confidential''
   \<and> (\<exists>u. Some sample_executive = Some u \<and> (role u = ''admin'' \<or> accessLevel u \<ge> 3))
   \<and> confidential_chunk \<notin> set (filterChunksByPermissions [public_chunk, confidential_chunk] None)"
  using filter_confidential_needs_clearance
    [of confidential_chunk "[public_chunk, confidential_chunk]" "Some sample_executive"]
  by (simp add: filterChunksByPermissions_def chunk_allowed_def confidential_chunk_def
      public_chunk_def sample_executive_def)

text \<open>
  C2. For an anonymous caller (no user context) every passage in the output of the
  permission filter has access level \<open>public\<close>, and every candidate whose access level
  is not \<open>public\<close> is left out.
\<close>

theorem filter_anonymous_public_only:
  "(\<forall>c \<in> set (filterChunksByPermissions chunks None). access_level c = ''public'')
   \<and> (\<forall>c \<in> set chunks. access_level c \<noteq> ''public''
        \<longrightarrow> c \<notin> set (filterChunksByPermissions chunks None))"
  by (simp add: filterChunksByPermissions_def)

theorem filter_anonymous_public_only_witness:
  "filterChunksByPermissions [public_chunk, confidential_chunk] None = [public_chunk]
   \<and> access_level public_chunk = ''public''
   \<and> confidential_chunk \<notin> set (filterChunksByPermissions [public_chunk, confidential_chunk] None)"
  using filter_anonymous_public_only [of "[public_chunk, confidential_chunk]"]
  by (simp add: filterChunksByPermissions_def confidential_chunk_def public_chunk_def)

section \<open>Properties of the ranking\<close>

lemma merge_into_ids:
  "chunk_id ` set (merge_into acc r) = insert (chunk_id r) (chunk_id ` set acc)"
  by (induction acc) auto

lemma merge_into_distinct:
  "distinct (map chunk_id acc) \<Longrightarrow> distinct (map chunk_id (merge_into acc r))"
proof (induction acc)
  case Nil
  then show ?case by simp
next
  case (Cons e es)
  have "chunk_id ` set (merge_into es r) = insert (chunk_id r) (chunk_id ` set es)"
    by (rule merge_into_ids)
  with Cons show ?case by auto
qed

lemma merge_into_cases:
  assumes "distinct (map chunk_id acc)" and "e' \<in> set (merge_into acc r)"
  shows "(e' \<in> set acc \<and> chunk_id e' \<noteq> chunk_id r)
       \<or> (e' = r \<and> chunk_id r \<notin> chunk_id ` set acc)
       \<or> (\<exists>e \<in> set acc. chunk_id e = chunk_id r \<and> chunk_id e' = chunk_id r
             \<and> score e' = max (score e) (score r))"
  using assms
proof (induction acc)
  case Nil
  then show ?case by simp
next
  case (Cons e es)
  show ?case
  proof (cases "chunk_id e = chunk_id r")
    case True
    with Cons.prems have "e' = e\<lparr>score := max (score e) (score r),
        searchType := searchType e @ ''+'' @ searchType r\<rparr> \<or> e' \<in> set es"
      by auto
    then show ?thesis
    proof
      assume "e' \<in> set es"
      then have "chunk_id e' \<in> chunk_id ` set es" by (rule imageI)
      moreover have "chunk_id e \<notin> chunk_id ` set es" using Cons.prems(1) by simp
      ultimately have "chunk_id e' \<noteq> chunk_id e" by metis
      with True \<open>e' \<in> set es\<close> show ?thesis by simp
    next
      assume "e' = e\<lparr>score := max (score e) (score r),
        searchType := searchType e @ ''+'' @ searchType r\<rparr>"
      with True show ?thesis by simp
    qed
  next
    case False
    with Cons.prems have "e' = e \<or> e' \<in> set (merge_into es r)" by auto
    then show ?thesis
    proof
      assume "e' = e"
      with False show ?thesis by simp
    next
      assume "e' \<in> set (merge_into es r)"
      with Cons.IH Cons.prems(1) False show ?thesis by auto
    qed
  qed
qed

lemma uniqueResults_snoc:
  "uniqueResults (xs @ [x]) = merge_into (uniqueResults xs) x"
  by (simp add: uniqueResults_def)

lemma uniqueResults_distinct: "distinct (map chunk_id (uniqueResults xs))"
proof (induction xs rule: rev_induct)
  case Nil
  then show ?case by (simp add: uniqueResults_def)
next
  case (snoc x xs)
  then show ?case by (simp add: uniqueResults_snoc merge_into_distinct)
qed

lemma uniqueResults_max:
  "e \<in> set (uniqueResults xs) \<Longrightarrow> c \<in> set xs \<Longrightarrow> chunk_id c = chunk_id e
     \<Longrightarrow> score c \<le> score e"
proof (induction xs arbitrary: e rule: rev_induct)
  case Nil
  then show ?case by simp
next
  case (snoc x xs)
  from snoc.prems(1) have mem: "e \<in> set (merge_into (uniqueResults xs) x)"
    by (simp add: uniqueResults_snoc)
  have ids: "chunk_id ` set (uniqueResults xs) = chunk_id ` set xs"
    by (induction xs rule: rev_induct)
       (simp_all add: uniqueResults_def merge_into_ids)
  from merge_into_cases [OF uniqueResults_distinct mem]
  consider (old) "e \<in> set (uniqueResults xs)" "chunk_id e \<noteq> chunk_id x"
    | (new) "e = x" "chunk_id x \<notin> chunk_id ` set (uniqueResults xs)"
    | (upd) e0 where "e0 \<in> set (uniqueResults xs)" "chunk_id e0 = chunk_id x"
        "chunk_id e = chunk_id x" "score e = max (score e0) (score x)"
    by blast
  then show ?case
  proof cases
    case old
    with snoc.prems snoc.IH show ?thesis by auto
  next
    case new
    show ?thesis
    proof (cases "c = x")
      case True
      with new show ?thesis by simp
    next
      case False
      with snoc.prems have "c \<in> set xs" by simp
      then have "chunk_id c \<in> chunk_id ` set xs" by (rule imageI)
      with new ids snoc.prems(3) show ?thesis by simp
    qed
  next
    case upd
    show ?thesis
    proof (cases "c = x")
      case True
      with upd show ?thesis by simp
    next
      case False
      with snoc.prems have "c \<in> set xs" by simp
      with snoc.IH [OF upd(1)] snoc.prems(3) upd have "score c \<le> score e0" by simp
      with upd show ?thesis by simp
    qed
  qed
qed

lemma filter_subset: "set (filterChunksByPermissions xs usr) \<subseteq> set xs"
  by (cases usr) (auto simp add: filterChunksByPermissions_def)

lemma ranked_member:
  assumes "r \<in> set (rankedResults rt q cands)"
  obtains e where "e \<in> set (uniqueResults cands)"
    and "r = e\<lparr>finalScore := Some (boostedScore rt q e)\<rparr>"
  using assms by (auto simp add: rankedResults_def)

lemma search_output_ranked:
  assumes "performHybridSearch rt q (Inr vrows) kw fb usr = Inr out" and "r \<in> set out"
  shows "r \<in> set (rankedResults rt q (allResults vrows kw))"
proof -
  from assms(1) have "out = take 5 (sort_key final_key
      (filterChunksByPermissions (rankedResults rt q (allResults vrows kw)) usr))"
    by (simp add: performHybridSearch_def)
  with assms(2) have "r \<in> set (filterChunksByPermissions
      (rankedResults rt q (allResults vrows kw)) usr)"
    using set_take_subset by fastforce
  with filter_subset show ?thesis by blast
qed

lemma factor_refl: "\<exists>k\<ge>1. (s::real) = s * k"
  by (rule exI [of _ 1]) simp

lemma factor_step:
  fixes s a j :: real
  assumes "\<exists>k\<ge>1. a = s * k" and "1 \<le> j"
  shows "\<exists>k\<ge>1. (if b then a * j else a) = s * k"
proof (cases b)
  case False
  with assms(1) show ?thesis by simp
next
  case True
  from assms(1) obtain k where k: "1 \<le> k" "a = s * k" by blast
  from k(1) assms(2) have "1 * 1 \<le> k * j" by (intro mult_mono) simp_all
  with k(2) True have "1 \<le> k * j \<and> (if b then a * j else a) = s * (k * j)" by simp
  then show ?thesis by blast
qed

lemma factor_foldl:
  fixes s a j :: real
  assumes "\<exists>k\<ge>1. a = s * k" and "1 \<le> j"
  shows "\<exists>k\<ge>1. foldl (\<lambda>acc x. if P x then acc * j else acc) a xs = s * k"
  using assms(1)
proof (induction xs arbitrary: a)
  case Nil
  then show ?case by simp
next
  case (Cons x xs)
  from Cons.prems assms(2) have "\<exists>k\<ge>1. (if P x then a * j else a) = s * k"
    by (rule factor_step)
  then have "\<exists>k\<ge>1. foldl (\<lambda>acc x. if P x then acc * j else acc)
      (if P x then a * j else a) xs = s * k"
    by (rule Cons.IH)
  then show ?case by simp
qed

lemma factor_if:
  fixes s x y :: real
  assumes "\<exists>k\<ge>1. x = s * k" and "\<exists>k\<ge>1. y = s * k"
  shows "\<exists>k\<ge>1. (if b then x else y) = s * k"
  using assms by simp

lemma boostedScore_factor: "\<exists>k\<ge>1. boostedScore rt q r = score r * k"
  unfolding boostedScore_def Let_def
  by (intro factor_step factor_foldl factor_if factor_refl) simp_all

lemma uniqueResults_attained:
  "e \<in> set (uniqueResults xs) \<Longrightarrow> \<exists>c \<in> set xs. chunk_id c = chunk_id e \<and> score c = score e"
proof (induction xs arbitrary: e rule: rev_induct)
  case Nil
  then show ?case by (simp add: uniqueResults_def)
next
  case (snoc x xs)
  from snoc.prems have mem: "e \<in> set (merge_into (uniqueResults xs) x)"
    by (simp add: uniqueResults_snoc)
  from merge_into_cases [OF uniqueResults_distinct mem]
  consider (old) "e \<in> set (uniqueResults xs)"
    | (new) "e = x"
    | (upd) e0 where "e0 \<in> set (uniqueResults xs)" "chunk_id e0 = chunk_id x"
        "chunk_id e = chunk_id x" "score e = max (score e0) (score x)"
    by blast
  then show ?case
  proof cases
    case old
    with snoc.IH show ?thesis by fastforce
  next
    case new
    then show ?thesis by simp
  next
    case upd
    show ?thesis
    proof (cases "score e0 \<le> score x")
      case True
      with upd show ?thesis by (simp add: max_def)
    next
      case False
      from snoc.IH [OF upd(1)] obtain c where "c \<in> set xs" "chunk_id c = chunk_id e0"
        "score c = score e0" by blast
      with upd False show ?thesis by (auto simp add: max_def)
    qed
  qed
qed

text \<open>
  C5. The ranking step gives every merged passage a \<open>finalScore\<close> that is the maximum
  \<open>m\<close> of the raw scores its identifier earned across the retrieval paths, multiplied
  by a factor \<open>k\<close> of at least 1; so, for a passage with a non-negative raw score, as
  the indexes report them, the final score is at least that maximum. The passages a
  ranking run returns are among the merged ones.
\<close>

theorem finalScore_ge_raw_scores:
  "(performHybridSearch rt q (Inr vrows) kw fb usr = Inr out
      \<longrightarrow> set out \<subseteq> set (rankedResults rt q (allResults vrows kw)))
   \<and> (r \<in> set (rankedResults rt q cands) \<longrightarrow>
        (\<exists>m k. (\<exists>c \<in> set cands. chunk_id c = chunk_id r \<and> score c = m)
           \<and> (\<forall>c \<in> set cands. chunk_id c = chunk_id r \<longrightarrow> score c \<le> m)
           \<and> 1 \<le> k \<and> finalScore r = Some (m * k)
           \<and> ((\<exists>c \<in> set cands. chunk_id c = chunk_id r \<and> 0 \<le> score c) \<longrightarrow> m \<le> m * k)))"
proof (intro conjI impI)
  assume "performHybridSearch rt q (Inr vrows) kw fb usr = Inr out"
  then show "set out \<subseteq> set (rankedResults rt q (allResults vrows kw))"
    by (auto intro: search_output_ranked)
next
  assume "r \<in> set (rankedResults rt q cands)"
  then obtain e where e: "e \<in> set (uniqueResults cands)"
    and r: "r = e\<lparr>finalScore := Some (boostedScore rt q e)\<rparr>"
    by (rule ranked_member)
  from r have id: "chunk_id r = chunk_id e" by simp
  obtain k where k: "1 \<le> k" "boostedScore rt q e = score e * k"
    using boostedScore_factor by blast
  from e id have att: "\<exists>c \<in> set cands. chunk_id c = chunk_id r \<and> score c = score e"
    by (simp add: uniqueResults_attained)
  from e id have ub: "\<forall>c \<in> set cands. chunk_id c = chunk_id r \<longrightarrow> score c \<le> score e"
    by (auto intro: uniqueResults_max)
  have ge: "score e \<le> score e * k" if "\<exists>c \<in> set cands. chunk_id c = chunk_id r \<and> 0 \<le> score c"
  proof -
    from that ub have "0 \<le> score e" by fastforce
    with k(1) have "score e * 1 \<le> score e * k" by (intro mult_left_mono) simp_all
    then show ?thesis by simp
  qed
  from r k have "finalScore r = Some (score e * k)" by simp
  with att ub k(1) ge
  show "\<exists>m k. (\<exists>c \<in> set cands. chunk_id c = chunk_id r \<and> score c = m)
           \<and> (\<forall>c \<in> set cands. chunk_id c = chunk_id r \<longrightarrow> score c \<le> m)
           \<and> 1 \<le> k \<and> finalScore r = Some (m * k)
           \<and> ((\<exists>c \<in> set cands. chunk_id c = chunk_id r \<and> 0 \<le> score c) \<longrightarrow> m \<le> m * k)"
    by blast
qed

theorem finalScore_ge_raw_scores_witness:
  "rankedResults no_matches ''hello'' (allResults [golf_row] (Inr [golf_row]))
     = [\<lparr>chunk_text = ''Golf news'', chunk_id = ''c1'', access_level = ''public'',
          departments = [''all''], score = 0.9, searchType = ''vector+keyword'',
          finalScore = Some 1.26\<rparr>]
   \<and> (\<exists>m k. m = 0.9 \<and> 1 \<le> k \<and> Some (1.26 :: real) = Some (m * k) \<and> m \<le> m * k)"
proof -
  let ?r = "\<lparr>chunk_text = ''Golf news'', chunk_id = ''c1'', access_level = ''public'',
          departments = [''all''], score = 0.9, searchType = ''vector+keyword'',
          finalScore = Some 1.26\<rparr>"
  let ?cands = "allResults [golf_row] (Inr [golf_row])"
  have rk: "rankedResults no_matches ''hello'' ?cands = [?r]" by code_simp
  then have mem: "?r \<in> set (rankedResults no_matches ''hello'' ?cands)" by simp
  have scores: "\<forall>c \<in> set ?cands. score c = 0.9"
    by (simp add: allResults_def as_chunk_def golf_row_def)
  have pos: "\<exists>c \<in> set ?cands. chunk_id c = chunk_id ?r \<and> 0 \<le> score c"
    by (simp add: allResults_def as_chunk_def golf_row_def)
  from finalScore_ge_raw_scores [where r = ?r and rt = no_matches and q = "''hello''"
      and cands = ?cands] mem pos
  obtain m k where "\<exists>c \<in> set ?cands. chunk_id c = chunk_id ?r \<and> score c = m"
    and "1 \<le> k" and "finalScore ?r = Some (m * k)" and "m \<le> m * k"
    by blast
  with scores have "m = 0.9 \<and> 1 \<le> k \<and> Some (1.26 :: real) = Some (m * k) \<and> m \<le> m * k"
    by auto
  with rk show ?thesis by blast
qed

text \<open>
  C8. When the keyword query throws and the vector query succeeds, the hybrid search
  returns normally: its result is the ranking of the vector rows alone, the same as
  for a keyword query that returned no row.
\<close>

theorem keyword_failure_is_not_fatal:
  "performHybridSearch rt q (Inr vrows) (Inl err) fb usr
     = Inr (take 5 (sort_key final_key
         (filterChunksByPermissions (rankedResults rt q (map (as_chunk ''vector'') vrows)) usr)))
   \<and> performHybridSearch rt q (Inr vrows) (Inl err) fb usr
     = performHybridSearch rt q (Inr vrows) (Inr []) fb usr"
  by (simp add: performHybridSearch_def allResults_def)

section \<open>Properties of the retrieval handler\<close>

lemma filter_member_passes:
  assumes "c \<in> set (filterChunksByPermissions xs usr)"
  shows "filterChunksByPermissions [c] usr = [c]"
  using assms by (cases usr) (auto simp add: filterChunksByPermissions_def)

lemma passes_same_access:
  assumes "filterChunksByPermissions [c] usr = [c]"
    and "access_level c' = access_level c" and "departments c' = departments c"
  shows "filterChunksByPermissions [c'] usr = [c']"
proof (cases usr)
  case None
  with assms show ?thesis
    by (simp add: filterChunksByPermissions_def split: if_splits)
next
  case (Some u)
  with assms(1) have "chunk_allowed u c"
    by (simp add: filterChunksByPermissions_def split: if_splits)
  with assms(2,3) have "chunk_allowed u c'" by (simp add: chunk_allowed_def)
  with Some show ?thesis by (simp add: filterChunksByPermissions_def)
qed

lemma search_output_passes:
  assumes "performHybridSearch rt q vr kw fb usr = Inr out" and "c \<in> set out"
  shows "filterChunksByPermissions [c] usr = [c]"
proof (cases vr)
  case (Inr vrows)
  with assms(1) have "out = take 5 (sort_key final_key
      (filterChunksByPermissions (rankedResults rt q (allResults vrows kw)) usr))"
    by (simp add: performHybridSearch_def)
  with assms(2) have "c \<in> set (filterChunksByPermissions
      (rankedResults rt q (allResults vrows kw)) usr)"
    using set_take_subset by fastforce
  then show ?thesis by (rule filter_member_passes)
next
  case (Inl err)
  with assms(1) obtain frows where "fb = Inr frows"
    and "out = filterChunksByPermissions (map (as_chunk ''vector_fallback'') frows) usr"
    by (auto simp add: performHybridSearch_def split: sum.splits)
  with assms(2) show ?thesis by (simp add: filter_member_passes)
qed

lemma combined_passes:
  assumes "\<forall>c \<in> set retrieved. filterChunksByPermissions [c] usr = [c]"
    and "c \<in> set (combinedChunks retrieved q sd usr)"
  shows "filterChunksByPermissions [c] usr = [c]"
proof (cases "c \<in> set retrieved")
  case True
  with assms(1) show ?thesis by simp
next
  case False
  with assms(2) obtain p where p: "p \<in> set (filterChunksByPermissions (relevantPrevious q sd) usr)"
    and c: "c = previous_context p"
    by (auto simp add: combinedChunks_def split: if_splits)
  from p have "filterChunksByPermissions [p] usr = [p]" by (rule filter_member_passes)
  moreover from c have "access_level c = access_level p" "departments c = departments p"
    by (simp_all add: previous_context_def)
  ultimately show ?thesis by (rule passes_same_access)
qed

lemma retrieve_success:
  assumes "retrieve rt ss req ev = Inr (resp, ss')"
  obtains retrieved where
    "performHybridSearch rt (searchQuery (question req)
        (sessionData_of ss (currentSessionId req ev) (req_user req)))
        (vectorRun ev) (keywordRun ev) (fallbackRun ev) (req_user req) = Inr retrieved"
    and "retrievedChunks resp = map response_chunk
        (topChunks retrieved (question req)
           (sessionData_of ss (currentSessionId req ev) (req_user req)) (req_user req))"
    and "ss' = ss(currentSessionId req ev \<mapsto>
        updateSession (sessionData_of ss (currentSessionId req ev) (req_user req))
          (question req) (answer ev) (time1 ev) (time2 ev)
          (topChunks retrieved (question req)
             (sessionData_of ss (currentSessionId req ev) (req_user req)) (req_user req))
          (req_user req))"
    and "\<not> ownership_conflict (req_user req)
        (sessionData_of ss (currentSessionId req ev) (req_user req))"
    and "question req \<noteq> []"
  using assms
  by (auto simp add: retrieve_def Let_def split: if_splits sum.splits)

text \<open>
  C3. Every passage of the result set of a served retrieval request passes the
  permission filter for the user of that request: the passages found by the search
  and the passages taken from the session cache alike.
\<close>

theorem retrieved_chunks_pass_filter:
  assumes "retrieve rt ss req ev = Inr (resp, ss')" and "c \<in> set (retrievedChunks resp)"
  shows "filterChunksByPermissions [c] (req_user req) = [c]"
proof -
  let ?sd = "sessionData_of ss (currentSessionId req ev) (req_user req)"
  from assms(1) obtain retrieved where
    search: "performHybridSearch rt (searchQuery (question req) ?sd)
        (vectorRun ev) (keywordRun ev) (fallbackRun ev) (req_user req) = Inr retrieved"
    and out: "retrievedChunks resp = map response_chunk
        (topChunks retrieved (question req) ?sd (req_user req))"
    by (rule retrieve_success)
  from assms(2) out obtain t where
    t: "t \<in> set (topChunks retrieved (question req) ?sd (req_user req))"
    and c: "c = response_chunk t"
    by auto
  from t have "t \<in> set (combinedChunks retrieved (question req) ?sd (req_user req))"
    using set_take_subset by (fastforce simp add: topChunks_def)
  moreover from search have
    "\<forall>x \<in> set retrieved. filterChunksByPermissions [x] (req_user req) = [x]"
    by (auto intro: search_output_passes)
  ultimately have "filterChunksByPermissions [t] (req_user req) = [t]"
    by (rule combined_passes [rotated])
  moreover from c have "access_level c = access_level t" "departments c = departments t"
    by (simp_all add: response_chunk_def)
  ultimately show ?thesis by (rule passes_same_access)
qed

theorem retrieved_chunks_pass_filter_witness:
  "map_sum id fst (retrieve no_matches (serve no_matches Map.empty [(first_request, golf_env)])
       followup_request golf_env)
     = Inr \<lparr>resp_answer = ''Golf news'',
             retrievedChunks =
               [\<lparr>chunk_text = ''Golf news'', chunk_id = ''c1'', access_level = ''public'',
                  departments = [''all''], score = 0.9, searchType = ''vector'',
                  finalScore = None\<rparr>,
                \<lparr>chunk_text = ''Golf news'', chunk_id = ''c1'', access_level = ''public'',
                  departments = [''all''], score = 0.864, searchType = ''previous_context'',
                  finalScore = None\<rparr>],
             conversationLength = 4, expandedQuery = Some ''more golf golf'',
             contextChunksUsed = 2, previousChunksInSession = 1, permissionsApplied = False\<rparr>
   \<and> filterChunksByPermissions
         [\<lparr>chunk_text = ''Golf news'', chunk_id = ''c1'', access_level = ''public'',
            departments = [''all''], score = 0.864, searchType = ''previous_context'',
            finalScore = None\<rparr>] (req_user followup_request)
       = [\<lparr>chunk_text = ''Golf news'', chunk_id = ''c1'', access_level = ''public'',
            departments = [''all''], score = 0.864, searchType = ''previous_context'',
            finalScore = None\<rparr>]"
proof -
  let ?c = "\<lparr>chunk_text = ''Golf news'', chunk_id = ''c1'', access_level = ''public'',
            departments = [''all''], score = 0.864, searchType = ''previous_context'',
            finalScore = None\<rparr>"
  let ?resp = "\<lparr>resp_answer = ''Golf news'',
             retrievedChunks =
               [\<lparr>chunk_text = ''Golf news'', chunk_id = ''c1'', access_level = ''public'',
                  departments = [''all''], score = 0.9, searchType = ''vector'',
                  finalScore = None\<rparr>, ?c],
             conversationLength = 4, expandedQuery = Some ''more golf golf'',
             contextChunksUsed = 2, previousChunksInSession = 1, permissionsApplied = False\<rparr>"
  let ?run = "retrieve no_matches (serve no_matches Map.empty [(first_request, golf_env)])
       followup_request golf_env"
  have run: "map_sum id fst ?run = Inr ?resp" by code_simp
  then obtain ss' where ok: "?run = Inr (?resp, ss')" by (cases ?run) auto
  have "?c \<in> set (retrievedChunks ?resp)" by simp
  with ok have "filterChunksByPermissions [?c] (req_user followup_request) = [?c]"
    by (rule retrieved_chunks_pass_filter)
  with run show ?thesis by simp
qed

text \<open>
  C4. The claim that no passage identifier appears twice in the final result set fails
  for a follow-up: an anonymous caller asks \<open>golf\<close> and then \<open>more golf\<close> in the same
  session; the passage \<open>c1\<close> is found again by the search and is also taken from the
  cache, and the result set holds it twice.
\<close>

theorem duplicate_passage_after_context_merge:
  "(case retrieve no_matches (serve no_matches Map.empty [(first_request, golf_env)])
          followup_request golf_env of
      Inl err \<Rightarrow> []
    | Inr (resp, ss') \<Rightarrow> map (\<lambda>c. (chunk_id c, searchType c)) (retrievedChunks resp))
   = [(''c1'', ''vector''), (''c1'', ''previous_context'')]"
  by code_simp

lemma not_total_not_literal:
  assumes "\<not> str_includes q ''total''"
  shows "q \<noteq> ''and in total?''"
proof
  assume "q = ''and in total?''"
  with assms show False by simp
qed

text \<open>
  C6 (amended). For a follow-up question whose trimmed lower-case text contains neither
  \<open>total\<close> nor \<open>overall\<close>, the expanded search string is the question, a space, and
  the first three of the ten most recent topic keywords, joined by spaces.
\<close>

theorem followup_expansion_first_three_of_recent:
  assumes "isFollowUp q sd"
    and "\<not> str_includes (trim (toLowerCase q)) ''total''"
    and "\<not> str_includes (trim (toLowerCase q)) ''overall''"
  shows "searchQuery q sd
     = q @ '' '' @ js_join '' '' (take 3 (slice_last 10 (topicKeywords sd)))"
  using assms not_total_not_literal [OF assms(2)]
  by (simp add: searchQuery_def Let_def)

text \<open>
  C6 as stated fails when the session holds more than three keywords: with the keywords
  \<open>umbrella, logo, golf, tournament\<close> the question \<open>why?\<close> is expanded with the three
  oldest of them, and the most recent keyword \<open>tournament\<close> is left out.
\<close>

theorem followup_expansion_counterexample:
  "isFollowUp ''why?'' topics_session
   \<and> \<not> str_includes ''why?'' ''total'' \<and> \<not> str_includes ''why?'' ''overall''
   \<and> searchQuery ''why?'' topics_session = ''why? umbrella logo golf''
   \<and> slice_last 3 (topicKeywords topics_session) = [''logo'', ''golf'', ''tournament'']"
  by code_simp

theorem followup_expansion_first_three_of_recent_witness:
  "isFollowUp ''why?'' topics_session
   \<and> searchQuery ''why?'' topics_session
       = ''why?'' @ '' '' @ js_join '' '' (take 3 (slice_last 10 (topicKeywords topics_session)))"
proof -
  have f: "isFollowUp ''why?'' topics_session" by code_simp
  have t: "\<not> str_includes (trim (toLowerCase ''why?'')) ''total''" by code_simp
  have o: "\<not> str_includes (trim (toLowerCase ''why?'')) ''overall''" by code_simp
  from followup_expansion_first_three_of_recent [OF f t o] f show ?thesis by simp
qed

section \<open>Properties of the session store\<close>

lemma slice_last_append:
  "slice_last n (slice_last n xs @ ys) = slice_last n (xs @ ys)"
proof (cases "n \<le> length xs")
  case True
  then have "length ys + (length xs - n) = length xs + length ys - n" by arith
  with True show ?thesis by (simp add: slice_last_def)
next
  case False
  then show ?thesis by (simp add: slice_last_def)
qed

lemma length_slice_last: "length (slice_last n xs) = min n (length xs)"
  by (simp add: slice_last_def)

lemma history_updateSession:
  "history (updateSession sd q a t1 t2 tops usr)
     = slice_last 20 (history sd @ turn_entries q a t1 t2)"
  by (simp add: updateSession_def Let_def)

lemma entries_of_Cons:
  "entries_of (t # ts)
     = turn_entries (turn_question t) (turn_answer t) (turn_time1 t) (turn_time2 t) @ entries_of ts"
  by (simp add: entries_of_def)

lemma length_entries_of: "length (entries_of ts) = 2 * length ts"
  by (induction ts) (simp_all add: entries_of_def turn_entries_def)

lemma history_record_turns:
  "ts \<noteq> [] \<Longrightarrow> history (record_turns sd ts) = slice_last 20 (history sd @ entries_of ts)"
proof (induction ts arbitrary: sd)
  case Nil
  then show ?case by simp
next
  case (Cons t ts)
  have step: "record_turns sd (t # ts) = record_turns (record_turn sd t) ts"
    by (simp add: record_turns_def)
  show ?case
  proof (cases "ts = []")
    case True
    then show ?thesis
      by (simp add: record_turns_def record_turn_def history_updateSession entries_of_def)
  next
    case False
    with Cons.IH have "history (record_turns (record_turn sd t) ts)
        = slice_last 20 (history (record_turn sd t) @ entries_of ts)" by simp
    also have "\<dots> = slice_last 20 ((history sd @ turn_entries (turn_question t) (turn_answer t)
        (turn_time1 t) (turn_time2 t)) @ entries_of ts)"
      by (simp only: record_turn_def history_updateSession slice_last_append)
    finally show ?thesis by (simp add: step entries_of_Cons)
  qed
qed

lemma slice_last_long_suffix:
  "n \<le> length ys \<Longrightarrow> slice_last n (xs @ ys) = slice_last n ys"
  by (simp add: slice_last_def)

text \<open>
  C7. After any record operation, and so after any served retrieval request, the
  stored history has at most 20 entries; after a sequence of record operations it is the last 20 entries of the old history followed
  by the recorded ones; and once ten or more turns are recorded (25 in particular, each
  adding the user's and the assistant's entry) it has exactly 20 entries, the 20 most
  recent ones.
\<close>

theorem history_capped_at_twenty:
  "length (history (updateSession sd q a t1 t2 tops usr)) \<le> 20
   \<and> (retrieve rt ss req ev = Inr (resp, ss') \<longrightarrow>
        (\<exists>sd'. ss' (currentSessionId req ev) = Some sd' \<and> length (history sd') \<le> 20))
   \<and> (ts \<noteq> [] \<longrightarrow>
        history (record_turns sd ts) = slice_last 20 (history sd @ entries_of ts))
   \<and> (10 \<le> length ts \<longrightarrow>
        length (history (record_turns sd ts)) = 20
        \<and> history (record_turns sd ts) = slice_last 20 (entries_of ts))"
proof (intro conjI impI)
  show "length (history (updateSession sd q a t1 t2 tops usr)) \<le> 20"
    by (simp add: history_updateSession length_slice_last)
next
  assume "retrieve rt ss req ev = Inr (resp, ss')"
  then obtain retrieved where
    "ss' = ss(currentSessionId req ev \<mapsto>
        updateSession (sessionData_of ss (currentSessionId req ev) (req_user req))
          (question req) (answer ev) (time1 ev) (time2 ev)
          (topChunks retrieved (question req)
             (sessionData_of ss (currentSessionId req ev) (req_user req)) (req_user req))
          (req_user req))"
    by (rule retrieve_success)
  then show "\<exists>sd'. ss' (currentSessionId req ev) = Some sd' \<and> length (history sd') \<le> 20"
    by (simp add: history_updateSession length_slice_last)
next
  assume "ts \<noteq> []"
  then show "history (record_turns sd ts) = slice_last 20 (history sd @ entries_of ts)"
    by (rule history_record_turns)
next
  assume long: "10 \<le> length ts"
  then have ne: "ts \<noteq> []" by auto
  from long have len: "20 \<le> length (entries_of ts)" by (simp add: length_entries_of)
  from ne have h: "history (record_turns sd ts) = slice_last 20 (history sd @ entries_of ts)"
    by (rule history_record_turns)
  with len show "history (record_turns sd ts) = slice_last 20 (entries_of ts)"
    by (simp add: slice_last_long_suffix)
  with len show "length (history (record_turns sd ts)) = 20"
    by (simp add: length_slice_last)
qed

theorem history_capped_at_twenty_witness:
  "length (history (record_turns topics_session (replicate 25 golf_turn))) = 20
   \<and> history (record_turns topics_session (replicate 25 golf_turn))
       = slice_last 20 (entries_of (replicate 25 golf_turn))"
proof -
  have "10 \<le> length (replicate 25 golf_turn)" by simp
  with history_capped_at_twenty [where ts = "replicate 25 golf_turn" and sd = topics_session]
  show ?thesis by blast
qed














end
